theory Spec2Isabelle
  imports Main
begin

section \<open>Python values used by \<open>pytext/utils/torch.py\<close>\<close>

text \<open>
  Strings are byte strings (TorchScript keeps a \<open>str\<close> as its UTF-8 bytes, and
  \<open>utf8_chars\<close> reads it byte by byte), so a string is a \<open>char list\<close>. Python integers
  are unbounded: \<open>int\<close>. Loop counters that come from \<open>range\<close> or start at \<open>0\<close> and only grow
  are \<open>nat\<close>. A subscript or an unpacking that can raise returns a sum, the exception on the
  left.
\<close>

datatype pyerr = IndexError | ValueError

text \<open>\<open>xs[i]\<close> on a list: a negative subscript counts from the end, anything outside raises.\<close>

definition list_getitem :: "'a list \<Rightarrow> int \<Rightarrow> pyerr + 'a" where
  "list_getitem xs i =
     (if 0 \<le> i then
        (if i < int (length xs) then Inr (xs ! nat i) else Inl IndexError)
      else
        (if - int (length xs) \<le> i then Inr (xs ! nat (int (length xs) + i))
         else Inl IndexError))"

text \<open>\<open>xs[i:j]\<close> for \<open>0 \<le> i \<le> j\<close>: the slice is cut at the end of the sequence, it never raises.\<close>

definition slice :: "'a list \<Rightarrow> nat \<Rightarrow> nat \<Rightarrow> 'a list" where
  "slice xs i j = take (j - i) (drop i xs)"

text \<open>\<open>xs.pop(i)\<close> for an index in range, as the resulting list.\<close>

definition list_pop :: "'a list \<Rightarrow> nat \<Rightarrow> 'a list" where
  "list_pop xs i = take i xs @ drop (i + 1) xs"

text \<open>\<open>ord(c)\<close> of one byte.\<close>

definition ord_byte :: "char \<Rightarrow> nat" where
  "ord_byte c = of_char c"

section \<open>\<open>list_membership\<close>\<close>

text \<open>The loop visits every element and raises the flag at each equal one.\<close>

definition list_membership :: "int \<Rightarrow> int list \<Rightarrow> bool" where
  "list_membership item lst =
     fold (\<lambda>i item_present. if item = i then True else item_present) lst False"

section \<open>\<open>Vocabulary\<close>\<close>

record Vocabulary =
  vocab :: "string list"
  unk_idx :: int
  pad_idx :: int
  eos_idx :: int
  bos_idx :: int
  idx :: "string \<rightharpoonup> int"

text \<open>The dict comprehension \<open>{word: i for i, word in enumerate(vocab_list)}\<close>: entries are
  stored in order, a later one replaces an earlier one with the same key.\<close>

definition enumerate_dict :: "string list \<Rightarrow> (string \<rightharpoonup> int)" where
  "enumerate_dict vocab_list =
     fold (\<lambda>(i, word) d. d(word \<mapsto> int i)) (enumerate 0 vocab_list) Map.empty"

definition Vocabulary_init :: "string list \<Rightarrow> int \<Rightarrow> int \<Rightarrow> int \<Rightarrow> int \<Rightarrow> Vocabulary" where
  "Vocabulary_init vocab_list unk pad bos eos =
     \<lparr>vocab = vocab_list, unk_idx = unk, pad_idx = pad, eos_idx = eos, bos_idx = bos,
      idx = enumerate_dict vocab_list\<rparr>"

text \<open>\<open>self.idx.get(value, self.unk_idx)\<close>.\<close>

definition idx_get :: "Vocabulary \<Rightarrow> string \<Rightarrow> int" where
  "idx_get self word = (case idx self word of Some i \<Rightarrow> i | None \<Rightarrow> unk_idx self)"

definition lookup_indices_1d :: "Vocabulary \<Rightarrow> string list \<Rightarrow> int list" where
  "lookup_indices_1d self vals =
     fold (\<lambda>word result. result @ [idx_get self word]) vals []"

text \<open>
  \<open>lookup_words_1d\<close>: the tensor of ids is the list of its integers, \<open>result\<close> is the list
  built so far. The only test on an id that is not filtered is \<open>value < len(self.vocab)\<close>;
  the subscripts \<open>self.vocab[value]\<close> and \<open>self.vocab[self.unk_idx]\<close> are Python subscripts.
\<close>

fun lookup_words_loop ::
  "Vocabulary \<Rightarrow> int list \<Rightarrow> int list \<Rightarrow> string option \<Rightarrow> string list \<Rightarrow> pyerr + string list"
where
  "lookup_words_loop self [] filter_token_list possible_unk_token result = Inr result"
| "lookup_words_loop self (v # vals) filter_token_list possible_unk_token result =
     (if \<not> list_membership v filter_token_list then
        (if v < int (length (vocab self)) then
           (case list_getitem (vocab self) v of
              Inl e \<Rightarrow> Inl e
            | Inr w \<Rightarrow>
                lookup_words_loop self vals filter_token_list possible_unk_token (result @ [w]))
         else
           (case possible_unk_token of
              Some u \<Rightarrow>
                lookup_words_loop self vals filter_token_list possible_unk_token (result @ [u])
            | None \<Rightarrow>
                (case list_getitem (vocab self) (unk_idx self) of
                   Inl e \<Rightarrow> Inl e
                 | Inr w \<Rightarrow>
                     lookup_words_loop self vals filter_token_list possible_unk_token
                       (result @ [w]))))
      else lookup_words_loop self vals filter_token_list possible_unk_token result)"

definition lookup_words_1d ::
  "Vocabulary \<Rightarrow> int list \<Rightarrow> int list \<Rightarrow> string option \<Rightarrow> pyerr + string list"
where
  "lookup_words_1d self vals filter_token_list possible_unk_token =
     lookup_words_loop self vals filter_token_list possible_unk_token []"

section \<open>\<open>utf8_chars\<close>\<close>

text \<open>The \<open>if\<close>/\<open>elif\<close> chain on a start byte that is at least \<open>0b10000000\<close>.\<close>

definition num_bytes_of :: "nat \<Rightarrow> nat" where
  "num_bytes_of byte =
     (if byte < 224 then 2
      else if byte < 240 then 3
      else if byte < 248 then 4
      else if byte < 252 then 5
      else if byte < 254 then 6
      else if byte < 255 then 7
      else 8)"

function utf8_chars_loop :: "string \<Rightarrow> nat \<Rightarrow> string list \<Rightarrow> string list" where
  "utf8_chars_loop s i chars =
     (if i < length s then
        (let byte = ord_byte (s ! i) in
         if byte < 128 then utf8_chars_loop s (i + 1) (chars @ [[s ! i]])
         else
           (let num_bytes = num_bytes_of byte in
            utf8_chars_loop s (i + num_bytes) (chars @ [slice s i (i + num_bytes)])))
      else chars)"
  by pat_completeness auto
termination
  by (relation "measure (\<lambda>(s, i, chars). length s - i)") (auto simp: num_bytes_of_def)

declare utf8_chars_loop.simps [simp del]

definition utf8_chars :: "string \<Rightarrow> string list" where
  "utf8_chars s = utf8_chars_loop s 0 []"

section \<open>\<open>BPE\<close>\<close>

text \<open>The class keeps the priority dict and the end-of-word string. (The dict is the field
  \<open>vocab\<close> in the source; the name is taken by \<open>Vocabulary\<close> here.)\<close>

record BPE =
  bpe_vocab :: "string \<rightharpoonup> int"
  eow :: string

definition NOT_IN_VOCAB :: int where
  "NOT_IN_VOCAB = - 1"

text \<open>The last statement of \<open>load_vocab\<close>, on the list \<open>words\<close> read from the file:
  \<open>{word: num_words - i for i, word in enumerate(words)}\<close>.\<close>

definition load_vocab_words :: "string list \<Rightarrow> (string \<rightharpoonup> int)" where
  "load_vocab_words words =
     (let num_words = int (length words) in
      fold (\<lambda>(i, word) d. d(word \<mapsto> num_words - int i)) (enumerate 0 words) Map.empty)"

text \<open>\<open>while len(parts) > 0 and self.vocab.get(parts[-1] + self.eow) is None: parts.pop()\<close>\<close>

function trim_loop :: "BPE \<Rightarrow> string list \<Rightarrow> string list" where
  "trim_loop self parts =
     (if length parts > 0 \<and> bpe_vocab self (last parts @ eow self) = None
      then trim_loop self (butlast parts)
      else parts)"
  by pat_completeness auto
termination
  by (relation "measure (\<lambda>(self, parts). length parts)") auto

declare trim_loop.simps [simp del]

text \<open>The loop that removes every part that is not a key, with its index \<open>i\<close>.\<close>

function filter_loop :: "BPE \<Rightarrow> string list \<Rightarrow> nat \<Rightarrow> string list" where
  "filter_loop self parts i =
     (if i < length parts then
        (if bpe_vocab self (parts ! i) = None then filter_loop self (list_pop parts i) i
         else filter_loop self parts (i + 1))
      else parts)"
  by pat_completeness auto
termination
  by (relation "measure (\<lambda>(self, parts, i). length parts - i)") (auto simp: list_pop_def)

declare filter_loop.simps [simp del]

text \<open>\<open>self.vocab.get(parts[pair_index] + parts[pair_index + 1], NOT_IN_VOCAB)\<close>\<close>

definition pair_value_at :: "BPE \<Rightarrow> string list \<Rightarrow> nat \<Rightarrow> int" where
  "pair_value_at self parts pair_index =
     (let joined = parts ! pair_index @ parts ! (pair_index + 1) in
      case bpe_vocab self joined of Some v \<Rightarrow> v | None \<Rightarrow> NOT_IN_VOCAB)"

text \<open>One round of the \<open>for pair_index in range(len(parts) - 1)\<close> loop on the pair
  \<open>(max_pair_index, max_pair_value)\<close>, and the whole loop from \<open>(0, NOT_IN_VOCAB)\<close>.\<close>

definition scan_step :: "BPE \<Rightarrow> string list \<Rightarrow> nat \<Rightarrow> nat \<times> int \<Rightarrow> nat \<times> int" where
  "scan_step self parts pair_index acc =
     (case acc of (max_pair_index, max_pair_value) \<Rightarrow>
        (let pair_value = pair_value_at self parts pair_index in
         if pair_value > max_pair_value then (pair_index, pair_value)
         else (max_pair_index, max_pair_value)))"

definition scan_pairs :: "BPE \<Rightarrow> string list \<Rightarrow> nat \<times> int" where
  "scan_pairs self parts =
     fold (scan_step self parts) [0 ..< length parts - 1] (0, NOT_IN_VOCAB)"

text \<open>\<open>p1, p2 = parts[i : i + 2]\<close> raises unless the slice has two elements; then
  \<open>parts[:i] + [p1 + p2] + parts[i + 2 :]\<close>.\<close>

definition merge_pair :: "string list \<Rightarrow> nat \<Rightarrow> pyerr + string list" where
  "merge_pair parts max_pair_index =
     (case slice parts max_pair_index (max_pair_index + 2) of
        [p1, p2] \<Rightarrow>
          Inr (take max_pair_index parts @ [p1 @ p2] @ drop (max_pair_index + 2) parts)
      | _ \<Rightarrow> Inl ValueError)"

text \<open>The body of the \<open>while len(parts) > 1 and not should_break\<close> loop: the new
  \<open>parts\<close> and the new \<open>should_break\<close>.\<close>

definition merge_body :: "BPE \<Rightarrow> string list \<Rightarrow> pyerr + string list \<times> bool" where
  "merge_body self parts =
     (case scan_pairs self parts of (max_pair_index, max_pair_value) \<Rightarrow>
        if max_pair_value = NOT_IN_VOCAB then Inr (parts, True)
        else
          (case merge_pair parts max_pair_index of
             Inl e \<Rightarrow> Inl e
           | Inr parts' \<Rightarrow> Inr (parts', False)))"

lemma merge_pair_length:
  "merge_pair parts i = Inr parts' \<Longrightarrow> Suc (length parts') = length parts"
proof -
  assume a: "merge_pair parts i = Inr parts'"
  then have two: "length (slice parts i (i + 2)) = 2"
    by (auto simp: merge_pair_def split: list.splits)
  then have "i + 2 \<le> length parts"
    by (simp add: slice_def)
  with a show ?thesis
    by (auto simp: merge_pair_def split: list.splits)
qed

lemma merge_body_measure:
  "merge_body self parts = Inr (parts', sb') \<Longrightarrow>
     2 * length parts' + (if sb' then 0 else 1) < 2 * length parts + 1"
  by (auto simp: merge_body_def split: prod.splits if_splits sum.splits
      dest: merge_pair_length)

function merge_loop :: "BPE \<Rightarrow> string list \<Rightarrow> bool \<Rightarrow> pyerr + string list" where
  "merge_loop self parts should_break =
     (if length parts > 1 \<and> \<not> should_break then
        (case merge_body self parts of
           Inl e \<Rightarrow> Inl e
         | Inr (parts', should_break') \<Rightarrow> merge_loop self parts' should_break')
      else Inr parts)"
  by pat_completeness auto
termination
  by (relation "measure (\<lambda>(self, parts, sb). 2 * length parts + (if sb then 0 else 1))")
     (auto dest: merge_body_measure)

declare merge_loop.simps [simp del]

text \<open>The same loop, counting how many times its body runs.\<close>

function merge_loop_iterations :: "BPE \<Rightarrow> string list \<Rightarrow> bool \<Rightarrow> nat" where
  "merge_loop_iterations self parts should_break =
     (if length parts > 1 \<and> \<not> should_break then
        (case merge_body self parts of
           Inl e \<Rightarrow> 1
         | Inr (parts', should_break') \<Rightarrow> 1 + merge_loop_iterations self parts' should_break')
      else 0)"
  by pat_completeness auto
termination
  by (relation "measure (\<lambda>(self, parts, sb). 2 * length parts + (if sb then 0 else 1))")
     (auto dest: merge_body_measure)

declare merge_loop_iterations.simps [simp del]

definition bpe_token :: "BPE \<Rightarrow> string \<Rightarrow> pyerr + string list" where
  "bpe_token self token =
     (let full_token = token @ eow self in
      if bpe_vocab self full_token \<noteq> None then Inr [full_token]
      else
        (let parts = trim_loop self (utf8_chars token) in
         if length parts = 0 then Inr parts
         else
           (let parts = butlast parts @ [last parts @ eow self];
                parts = filter_loop self parts 0
            in merge_loop self parts False)))"

text \<open>\<open>tokenize\<close>: the parts of every token are appended one by one.\<close>

fun tokenize_loop :: "BPE \<Rightarrow> string list \<Rightarrow> string list \<Rightarrow> pyerr + string list" where
  "tokenize_loop self [] bpe_tokens = Inr bpe_tokens"
| "tokenize_loop self (token # tokens) bpe_tokens =
     (case bpe_token self token of
        Inl e \<Rightarrow> Inl e
      | Inr ps \<Rightarrow>
          tokenize_loop self tokens (fold (\<lambda>part acc. acc @ [part]) ps bpe_tokens))"

definition tokenize :: "BPE \<Rightarrow> string list \<Rightarrow> pyerr + string list" where
  "tokenize self tokens = tokenize_loop self tokens []"

text \<open>The table of the class docstring, read as priorities, and the table that
  \<open>load_vocab\<close> builds from the same eleven lines.\<close>

definition doc_counts :: "(string \<times> int) list" where
  "doc_counts =
     [(''hello_EOW'', 20), (''world_EOW'', 18), (''th'', 17), (''is_EOW'', 16),
      (''bpe_EOW'', 15), (''!'', 14), (''h'', 13), (''t'', 6), (''s_EOW'', 2),
      (''i'', - 1), (''ii'', - 2)]"

definition doc_bpe :: BPE where
  "doc_bpe = \<lparr>bpe_vocab = map_of doc_counts, eow = ''_EOW''\<rparr>"

definition doc_bpe_loaded :: BPE where
  "doc_bpe_loaded = \<lparr>bpe_vocab = load_vocab_words (map fst doc_counts), eow = ''_EOW''\<rparr>"

section \<open>Definitions used to state the properties\<close>

text \<open>What the scan loop has established after \<open>n\<close> rounds: the running maximum bounds every
  pair seen, never falls below the sentinel, and, once above it, sits at the first pair
  that reaches it.\<close>

definition scan_inv :: "BPE \<Rightarrow> string list \<Rightarrow> nat \<Rightarrow> nat \<times> int \<Rightarrow> bool" where
  "scan_inv self parts n acc =
     (case acc of (k, v) \<Rightarrow>
        (\<forall>j<n. pair_value_at self parts j \<le> v) \<and> NOT_IN_VOCAB \<le> v \<and>
        (if v = NOT_IN_VOCAB then k = 0
         else k < n \<and> pair_value_at self parts k = v \<and>
              (\<forall>j<k. pair_value_at self parts j < v)))"

text \<open>The table of a \<open>BPE\<close> without its entries of negative priority.\<close>

definition without_negative :: "BPE \<Rightarrow> BPE" where
  "without_negative self =
     self\<lparr>bpe_vocab :=
       (\<lambda>k. case bpe_vocab self k of
              None \<Rightarrow> None
            | Some v \<Rightarrow> if v < 0 then None else Some v)\<rparr>"

text \<open>A table whose pairs all have priorities below the sentinel.\<close>

definition small_bpe :: BPE where
  "small_bpe =
     \<lparr>bpe_vocab = map_of [(''a'', 1), (''b'', 1), (''c$'', 1), (''ab'', - 2), (''bc$'', - 3)],
      eow = ''$''\<rparr>"

text \<open>
  The loop body as the specification words it: the greatest priority over all adjacent
  pairs, the lowest index that has it, stop if it is the sentinel, merge there otherwise.
\<close>

definition claimed_merge_body :: "BPE \<Rightarrow> string list \<Rightarrow> pyerr + string list \<times> bool" where
  "claimed_merge_body self parts =
     (let pair_values = map (pair_value_at self parts) [0 ..< length parts - 1];
          greatest = Max (set pair_values);
          i = (case find (\<lambda>j. pair_value_at self parts j = greatest) [0 ..< length parts - 1] of
                 Some j \<Rightarrow> j
               | None \<Rightarrow> 0)
      in if greatest = NOT_IN_VOCAB then Inr (parts, True)
         else Inr (take i parts @ [parts ! i @ parts ! (i + 1)] @ drop (i + 2) parts, False))"

text \<open>The vocabulary \<open>Vocabulary(["a", "b", "c"], unk_idx=0)\<close>.\<close>

definition abc_vocabulary :: Vocabulary where
  "abc_vocabulary = Vocabulary_init [''a'', ''b'', ''c''] 0 (- 1) (- 1) (- 1)"

text \<open>
  \<open>lookup_words_1d\<close> as the specification words it, one id at a time: nothing for a filtered
  id, \<open>tokens[id]\<close> for \<open>0 \<le> id < len(tokens)\<close>, and otherwise the replacement or
  \<open>tokens[unk_idx]\<close>.
\<close>

definition claimed_word :: "Vocabulary \<Rightarrow> int \<Rightarrow> int list \<Rightarrow> string option \<Rightarrow> pyerr + string list" where
  "claimed_word self v filter_ids unk_replacement =
     (if v \<in> set filter_ids then Inr []
      else if 0 \<le> v \<and> v < int (length (vocab self)) then Inr [vocab self ! nat v]
      else
        (case unk_replacement of
           Some u \<Rightarrow> Inr [u]
         | None \<Rightarrow>
             (case list_getitem (vocab self) (unk_idx self) of
                Inl e \<Rightarrow> Inl e
              | Inr w \<Rightarrow> Inr [w])))"

fun claimed_words :: "Vocabulary \<Rightarrow> int list \<Rightarrow> int list \<Rightarrow> string option \<Rightarrow> pyerr + string list" where
  "claimed_words self [] filter_ids unk_replacement = Inr []"
| "claimed_words self (v # vals) filter_ids unk_replacement =
     (case claimed_word self v filter_ids unk_replacement of
        Inl e \<Rightarrow> Inl e
      | Inr ws \<Rightarrow>
          (case claimed_words self vals filter_ids unk_replacement of
             Inl e \<Rightarrow> Inl e
           | Inr rest \<Rightarrow> Inr (ws @ rest)))"

section \<open>The loops of \<open>utf8_chars\<close> and \<open>bpe_token\<close>\<close>

lemma take_drop_drop: "take n (drop i s) @ drop (i + n) s = drop i s"
  by (metis append_take_drop_id drop_drop add.commute)

lemma utf8_chars_loop_concat:
  "concat (utf8_chars_loop s i chars) = concat chars @ drop i s"
proof (induction s i chars rule: utf8_chars_loop.induct)
  case (1 s i chars)
  show ?case
  proof (cases "i < length s")
    case False
    then show ?thesis by (simp add: utf8_chars_loop.simps [of s i chars])
  next
    case True
    note lt = this
    show ?thesis
    proof (cases "ord_byte (s ! i) < 128")
      case True
      have "utf8_chars_loop s i chars = utf8_chars_loop s (i + 1) (chars @ [[s ! i]])"
        using lt True by (simp add: utf8_chars_loop.simps [of s i chars])
      with lt 1(1) [OF lt refl True] show ?thesis
        by (simp add: Cons_nth_drop_Suc)
    next
      case False
      have "utf8_chars_loop s i chars =
          utf8_chars_loop s (i + num_bytes_of (ord_byte (s ! i)))
            (chars @ [slice s i (i + num_bytes_of (ord_byte (s ! i)))])"
        using lt False by (simp add: utf8_chars_loop.simps [of s i chars] Let_def)
      with lt 1(2) [OF lt refl False refl] show ?thesis
        by (simp add: slice_def take_drop_drop)
    qed
  qed
qed

lemma filter_loop_eq:
  "filter_loop self parts i =
     take i parts @ filter (\<lambda>p. bpe_vocab self p \<noteq> None) (drop i parts)"
proof (induction self parts i rule: filter_loop.induct)
  case (1 self parts i)
  show ?case
  proof (cases "i < length parts")
    case False
    then show ?thesis by (simp add: filter_loop.simps [of self parts i])
  next
    case True
    note lt = this
    have d: "drop i parts = parts ! i # drop (Suc i) parts"
      using lt by (simp add: Cons_nth_drop_Suc)
    show ?thesis
    proof (cases "bpe_vocab self (parts ! i) = None")
      case True
      have "filter_loop self parts i = filter_loop self (list_pop parts i) i"
        using lt True by (simp add: filter_loop.simps [of self parts i])
      also have "\<dots> = take i (list_pop parts i) @
           filter (\<lambda>p. bpe_vocab self p \<noteq> None) (drop i (list_pop parts i))"
        using 1(1) [OF lt True] .
      also have "take i (list_pop parts i) = take i parts"
        using lt by (simp add: list_pop_def)
      also have "drop i (list_pop parts i) = drop (Suc i) parts"
        using lt by (simp add: list_pop_def)
      finally show ?thesis using True d by simp
    next
      case False
      have "filter_loop self parts i = filter_loop self parts (i + 1)"
        by (simp add: filter_loop.simps [of self parts i] lt False)
      also have "\<dots> = take (i + 1) parts @
           filter (\<lambda>p. bpe_vocab self p \<noteq> None) (drop (i + 1) parts)"
        using 1(2) [OF lt False] .
      finally show ?thesis using False d lt by (simp add: take_Suc_conv_app_nth)
    qed
  qed
qed

lemma trim_loop_last:
  "trim_loop self parts = [] \<or> bpe_vocab self (last (trim_loop self parts) @ eow self) \<noteq> None"
proof (induction self parts rule: trim_loop.induct)
  case (1 self parts)
  show ?case
  proof (cases "length parts > 0 \<and> bpe_vocab self (last parts @ eow self) = None")
    case True
    then have "trim_loop self parts = trim_loop self (butlast parts)"
      by (simp add: trim_loop.simps [of self parts])
    with 1 [OF True] show ?thesis by simp
  next
    case False
    then have "trim_loop self parts = parts"
      by (subst trim_loop.simps) auto
    with False show ?thesis by auto
  qed
qed


lemma scan_inv_fold:
  "scan_inv self parts n (fold (scan_step self parts) [0 ..< n] (0, NOT_IN_VOCAB))"
proof (induction n)
  case 0
  then show ?case by (simp add: scan_inv_def)
next
  case (Suc n)
  obtain k v where kv: "fold (scan_step self parts) [0 ..< n] (0, NOT_IN_VOCAB) = (k, v)"
    by (cases "fold (scan_step self parts) [0 ..< n] (0, NOT_IN_VOCAB)")
  from Suc kv have inv: "scan_inv self parts n (k, v)" by simp
  have step: "fold (scan_step self parts) [0 ..< Suc n] (0, NOT_IN_VOCAB) =
      scan_step self parts n (k, v)"
    using kv by simp
  show ?case
  proof (cases "pair_value_at self parts n > v")
    case True
    then have r: "scan_step self parts n (k, v) = (n, pair_value_at self parts n)"
      by (simp add: scan_step_def)
    have "scan_inv self parts (Suc n) (n, pair_value_at self parts n)"
      using inv True unfolding scan_inv_def
      by (auto simp: less_Suc_eq split: if_splits)
    then show ?thesis by (simp only: step r)
  next
    case False
    then have r: "scan_step self parts n (k, v) = (k, v)"
      by (simp add: scan_step_def)
    have "scan_inv self parts (Suc n) (k, v)"
      using inv False unfolding scan_inv_def
      by (auto simp: less_Suc_eq split: if_splits)
    then show ?thesis by (simp only: step r)
  qed
qed

lemma scan_pairs_inv:
  "scan_inv self parts (length parts - 1) (scan_pairs self parts)"
  unfolding scan_pairs_def by (rule scan_inv_fold)

section \<open>The merge loop\<close>

lemma merge_pair_in_range:
  assumes "i + 1 < length parts"
  shows "merge_pair parts i =
     Inr (take i parts @ [parts ! i @ parts ! (i + 1)] @ drop (i + 2) parts)"
proof -
  have "drop i parts = parts ! i # parts ! (i + 1) # drop (i + 2) parts"
    using assms by (simp add: Cons_nth_drop_Suc)
  then have "slice parts i (i + 2) = [parts ! i, parts ! (i + 1)]"
    by (simp add: slice_def)
  then show ?thesis by (simp add: merge_pair_def)
qed

lemma scan_pairs_index:
  assumes "1 < length parts"
  shows "fst (scan_pairs self parts) + 1 < length parts"
proof -
  obtain k v where kv: "scan_pairs self parts = (k, v)"
    by (cases "scan_pairs self parts")
  have "scan_inv self parts (length parts - 1) (k, v)"
    using scan_pairs_inv [of self parts] kv by simp
  then have "k < length parts - 1"
    using assms by (auto simp: scan_inv_def split: if_splits)
  then show ?thesis using kv by simp
qed

lemma scan_pairs_none:
  assumes "\<forall>j < length parts - 1. pair_value_at self parts j \<le> NOT_IN_VOCAB"
  shows "scan_pairs self parts = (0, NOT_IN_VOCAB)"
proof -
  obtain k v where kv: "scan_pairs self parts = (k, v)"
    by (cases "scan_pairs self parts")
  have inv: "scan_inv self parts (length parts - 1) (k, v)"
    using scan_pairs_inv [of self parts] kv by simp
  have "v = NOT_IN_VOCAB"
  proof (rule ccontr)
    assume ne: "v \<noteq> NOT_IN_VOCAB"
    with inv have "k < length parts - 1" and "pair_value_at self parts k = v"
      and "NOT_IN_VOCAB \<le> v"
      by (auto simp: scan_inv_def)
    with assms ne show False by force
  qed
  with inv kv show ?thesis by (simp add: scan_inv_def)
qed

lemma scan_pairs_some:
  assumes k: "k < length parts - 1"
    and pos: "NOT_IN_VOCAB < pair_value_at self parts k"
    and mx: "\<forall>j < length parts - 1. pair_value_at self parts j \<le> pair_value_at self parts k"
    and first: "\<forall>j < k. pair_value_at self parts j < pair_value_at self parts k"
  shows "scan_pairs self parts = (k, pair_value_at self parts k)"
proof -
  obtain k' v where kv: "scan_pairs self parts = (k', v)"
    by (cases "scan_pairs self parts")
  have inv: "scan_inv self parts (length parts - 1) (k', v)"
    using scan_pairs_inv [of self parts] kv by simp
  from inv k have le: "pair_value_at self parts k \<le> v"
    by (simp add: scan_inv_def)
  with pos have ne: "v \<noteq> NOT_IN_VOCAB" by simp
  with inv have k': "k' < length parts - 1" and v: "pair_value_at self parts k' = v"
    and first': "\<forall>j < k'. pair_value_at self parts j < v"
    by (auto simp: scan_inv_def)
  from mx k' v have "v \<le> pair_value_at self parts k" by auto
  with le have veq: "v = pair_value_at self parts k" by simp
  have "k' = k"
  proof (rule ccontr)
    assume "k' \<noteq> k"
    then consider "k' < k" | "k < k'" by linarith
    then show False
    proof cases
      case 1
      with first v veq show ?thesis by auto
    next
      case 2
      with first' veq show ?thesis by auto
    qed
  qed
  with kv veq show ?thesis by simp
qed

lemma scan_pairs_selected:
  assumes "scan_pairs self parts = (k, v)" and "v \<noteq> NOT_IN_VOCAB"
  shows "k < length parts - 1 \<and> pair_value_at self parts k = v \<and> 0 \<le> v"
proof -
  have "scan_inv self parts (length parts - 1) (k, v)"
    using scan_pairs_inv [of self parts] assms(1) by simp
  with assms(2) show ?thesis
    by (auto simp: scan_inv_def NOT_IN_VOCAB_def)
qed

lemma pair_values_cases:
  "(\<forall>j < length parts - 1. pair_value_at self parts j \<le> NOT_IN_VOCAB) \<or>
   (\<exists>k < length parts - 1. NOT_IN_VOCAB < pair_value_at self parts k \<and>
      (\<forall>j < length parts - 1. pair_value_at self parts j \<le> pair_value_at self parts k) \<and>
      (\<forall>j < k. pair_value_at self parts j < pair_value_at self parts k))"
proof -
  obtain k v where kv: "scan_pairs self parts = (k, v)"
    by (cases "scan_pairs self parts")
  have inv: "scan_inv self parts (length parts - 1) (k, v)"
    using scan_pairs_inv [of self parts] kv by simp
  show ?thesis
  proof (cases "v = NOT_IN_VOCAB")
    case True
    with inv have "\<forall>j < length parts - 1. pair_value_at self parts j \<le> NOT_IN_VOCAB"
      by (simp add: scan_inv_def)
    then show ?thesis ..
  next
    case False
    with inv have "k < length parts - 1" and "pair_value_at self parts k = v"
      and "NOT_IN_VOCAB < v"
      and "\<forall>j < length parts - 1. pair_value_at self parts j \<le> v"
      and "\<forall>j < k. pair_value_at self parts j < v"
      by (auto simp: scan_inv_def)
    then show ?thesis by blast
  qed
qed

lemma merge_body_cases:
  assumes "1 < length parts"
  shows "merge_body self parts = Inr (parts, True) \<and> snd (scan_pairs self parts) = NOT_IN_VOCAB \<or>
     (\<exists>k v. scan_pairs self parts = (k, v) \<and> v \<noteq> NOT_IN_VOCAB \<and> k + 1 < length parts \<and>
        merge_body self parts =
          Inr (take k parts @ [parts ! k @ parts ! (k + 1)] @ drop (k + 2) parts, False))"
proof -
  obtain k v where kv: "scan_pairs self parts = (k, v)"
    by (cases "scan_pairs self parts")
  have k: "k + 1 < length parts"
    using scan_pairs_index [OF assms, of self] kv by simp
  show ?thesis
  proof (cases "v = NOT_IN_VOCAB")
    case True
    with kv show ?thesis by (simp add: merge_body_def)
  next
    case False
    with kv k merge_pair_in_range [OF k] show ?thesis
      by (simp add: merge_body_def)
  qed
qed

lemma merge_loop_returns: "\<exists>ps. merge_loop self parts should_break = Inr ps"
proof (induction self parts should_break rule: merge_loop.induct)
  case (1 self parts should_break)
  show ?case
  proof (cases "length parts > 1 \<and> \<not> should_break")
    case False
    then show ?thesis by (subst merge_loop.simps) auto
  next
    case True
    then have len: "1 < length parts" by simp
    from merge_body_cases [OF len, of self]
    obtain parts' sb' where b: "merge_body self parts = Inr (parts', sb')" by auto
    have "merge_loop self parts should_break = merge_loop self parts' sb'"
      by (subst merge_loop.simps) (use True b in simp)
    with 1 [OF True b refl] show ?thesis by simp
  qed
qed

lemma merge_loop_iterations_bound:
  "merge_loop_iterations self parts should_break \<le>
     (if should_break then 0 else length parts - 1)"
proof (induction self parts should_break rule: merge_loop_iterations.induct)
  case (1 self parts should_break)
  show ?case
  proof (cases "length parts > 1 \<and> \<not> should_break")
    case False
    then show ?thesis by (subst merge_loop_iterations.simps) auto
  next
    case True
    then have len: "1 < length parts" by simp
    from merge_body_cases [OF len, of self]
    obtain parts' sb' where b: "merge_body self parts = Inr (parts', sb')"
      and m: "2 * length parts' + (if sb' then 0 else 1) < 2 * length parts + 1"
      by (auto dest: merge_body_measure)
    have "merge_loop_iterations self parts should_break =
        1 + merge_loop_iterations self parts' sb'"
      by (subst merge_loop_iterations.simps) (use True b in simp)
    with 1 [OF True b refl] m len True show ?thesis
      by (auto split: if_splits)
  qed
qed

lemma merge_loop_keys:
  assumes "\<forall>p \<in> set parts. bpe_vocab self p \<noteq> None"
    and "merge_loop self parts should_break = Inr ps"
  shows "\<forall>p \<in> set ps. bpe_vocab self p \<noteq> None"
  using assms
proof (induction self parts should_break rule: merge_loop.induct)
  case (1 self parts should_break)
  show ?case
  proof (cases "length parts > 1 \<and> \<not> should_break")
    case False
    then have "merge_loop self parts should_break = Inr parts"
      by (subst merge_loop.simps) auto
    with 1(2,3) show ?thesis by simp
  next
    case True
    then have len: "1 < length parts" by simp
    from merge_body_cases [OF len, of self]
    consider (stop) "merge_body self parts = Inr (parts, True)"
      | (merge) k v where "scan_pairs self parts = (k, v)" "v \<noteq> NOT_IN_VOCAB"
          "k + 1 < length parts"
          "merge_body self parts =
             Inr (take k parts @ [parts ! k @ parts ! (k + 1)] @ drop (k + 2) parts, False)"
      by blast
    then show ?thesis
    proof cases
      case stop
      have "merge_loop self parts should_break = merge_loop self parts True"
        by (subst merge_loop.simps) (use True stop in simp)
      with 1(1) [OF True stop refl 1(2)] 1(3) show ?thesis by simp
    next
      case merge
      let ?parts' = "take k parts @ [parts ! k @ parts ! (k + 1)] @ drop (k + 2) parts"
      have e: "merge_loop self parts should_break = merge_loop self ?parts' False"
        by (subst merge_loop.simps) (use True merge(4) in simp)
      from scan_pairs_selected [OF merge(1,2)]
      have "pair_value_at self parts k = v" by simp
      with merge(2) have key: "bpe_vocab self (parts ! k @ parts ! (k + 1)) \<noteq> None"
        by (auto simp: pair_value_at_def split: option.splits)
      have "\<forall>p \<in> set ?parts'. bpe_vocab self p \<noteq> None"
        using 1(2) key by (auto dest: in_set_takeD in_set_dropD)
      from 1(1) [OF True merge(4) refl this] e 1(3) show ?thesis by simp
    qed
  qed
qed

section \<open>\<open>Vocabulary\<close> lookups and negative priorities\<close>

lemma list_membership_fold:
  "fold (\<lambda>i item_present. if item = i then True else item_present) lst b =
     (b \<or> item \<in> set lst)"
  by (induction lst arbitrary: b) auto

lemma list_membership_set: "list_membership item lst = (item \<in> set lst)"
  by (simp add: list_membership_def list_membership_fold)

lemma fold_put_absent:
  assumes f: "\<And>i w d. f (i, w) d = d(w \<mapsto> int i)"
  shows "w \<notin> set xs \<Longrightarrow> fold f (enumerate n xs) m w = m w"
  by (induction xs arbitrary: n m) (simp_all add: f)

lemma fold_put_distinct:
  assumes f: "\<And>i w d. f (i, w) d = d(w \<mapsto> int i)"
  shows "distinct xs \<Longrightarrow> i < length xs \<Longrightarrow>
     fold f (enumerate n xs) m (xs ! i) = Some (int (n + i))"
proof (induction xs arbitrary: n m i)
  case Nil
  then show ?case by simp
next
  case (Cons x xs)
  show ?case
  proof (cases i)
    case 0
    with Cons.prems show ?thesis
      by (simp add: f fold_put_absent [OF f])
  next
    case (Suc j)
    have e: "fold f (enumerate n (x # xs)) m = fold f (enumerate (Suc n) xs) (m(x \<mapsto> int n))"
      by (simp add: f)
    have j: "distinct xs" "j < length xs"
      using Cons.prems Suc by simp_all
    have ih: "fold f (enumerate (Suc n) xs) (m(x \<mapsto> int n)) (xs ! j) = Some (int (Suc n + j))"
      by (rule Cons.IH [OF j])
    have a: "(x # xs) ! i = xs ! j" and b: "n + i = Suc n + j"
      using Suc by simp_all
    show ?thesis by (simp only: e a b ih)
  qed
qed

lemma enumerate_dict_distinct:
  "distinct xs \<Longrightarrow> i < length xs \<Longrightarrow> enumerate_dict xs (xs ! i) = Some (int i)"
  unfolding enumerate_dict_def
  using fold_put_distinct [of "\<lambda>(i, word) d. d(word \<mapsto> int i)" xs i 0 Map.empty]
  by simp

lemma fold_append_map: "fold (\<lambda>w result. result @ [f w]) xs acc = acc @ map f xs"
  by (induction xs arbitrary: acc) auto

lemma lookup_indices_1d_map: "lookup_indices_1d self vals = map (idx_get self) vals"
  by (simp add: lookup_indices_1d_def fold_append_map)

lemma lookup_words_loop_round_trip:
  assumes d: "distinct (vocab self)" and i: "idx self = enumerate_dict (vocab self)"
  shows "set words \<subseteq> set (vocab self) \<Longrightarrow>
     lookup_words_loop self (map (idx_get self) words) [] None result = Inr (result @ words)"
proof (induction words arbitrary: result)
  case Nil
  then show ?case by simp
next
  case (Cons w ws)
  then obtain k where k: "k < length (vocab self)" and w: "vocab self ! k = w"
    by (auto simp: in_set_conv_nth)
  have "idx self w = Some (int k)"
    using enumerate_dict_distinct [OF d k] i w by simp
  then have g: "idx_get self w = int k" by (simp add: idx_get_def)
  have "list_getitem (vocab self) (int k) = Inr w"
    using k w by (simp add: list_getitem_def)
  with g k Cons show ?case
    by (simp add: list_membership_set)
qed


lemma pair_value_at_without_negative:
  "pair_value_at (without_negative self) parts j =
     (if pair_value_at self parts j < 0 then NOT_IN_VOCAB else pair_value_at self parts j)"
  by (simp add: pair_value_at_def without_negative_def NOT_IN_VOCAB_def split: option.splits)

lemma scan_step_without_negative:
  "NOT_IN_VOCAB \<le> v \<Longrightarrow>
     scan_step (without_negative self) parts j (k, v) = scan_step self parts j (k, v)"
  by (auto simp: scan_step_def pair_value_at_without_negative NOT_IN_VOCAB_def Let_def)

lemma scan_fold_without_negative:
  "fold (scan_step (without_negative self) parts) [0 ..< n] (0, NOT_IN_VOCAB) =
     fold (scan_step self parts) [0 ..< n] (0, NOT_IN_VOCAB)"
proof (induction n)
  case 0
  then show ?case by simp
next
  case (Suc n)
  obtain k v where kv: "fold (scan_step self parts) [0 ..< n] (0, NOT_IN_VOCAB) = (k, v)"
    by (cases "fold (scan_step self parts) [0 ..< n] (0, NOT_IN_VOCAB)")
  have "scan_inv self parts n (k, v)"
    using scan_inv_fold [of self parts n] kv by simp
  then have "NOT_IN_VOCAB \<le> v" by (simp add: scan_inv_def)
  with Suc kv show ?case
    by (simp add: scan_step_without_negative)
qed

lemma scan_pairs_without_negative:
  "scan_pairs (without_negative self) parts = scan_pairs self parts"
  by (simp add: scan_pairs_def scan_fold_without_negative)

lemma merge_body_without_negative:
  "merge_body (without_negative self) parts = merge_body self parts"
  by (simp add: merge_body_def scan_pairs_without_negative)

lemma merge_loop_without_negative:
  "merge_loop (without_negative self) parts should_break = merge_loop self parts should_break"
proof (induction self parts should_break rule: merge_loop.induct)
  case (1 self parts should_break)
  show ?case
  proof (cases "length parts > 1 \<and> \<not> should_break")
    case False
    then have "merge_loop self parts should_break = Inr parts"
      by (subst merge_loop.simps) auto
    moreover from False
    have "merge_loop (without_negative self) parts should_break = Inr parts"
      by (subst merge_loop.simps) auto
    ultimately show ?thesis by simp
  next
    case True
    have l: "merge_loop self parts should_break =
        (case merge_body self parts of
           Inl e \<Rightarrow> Inl e
         | Inr (parts', sb') \<Rightarrow> merge_loop self parts' sb')"
      by (subst merge_loop.simps) (use True in simp)
    have r: "merge_loop (without_negative self) parts should_break =
        (case merge_body self parts of
           Inl e \<Rightarrow> Inl e
         | Inr (parts', sb') \<Rightarrow> merge_loop (without_negative self) parts' sb')"
      using True merge_loop.simps [of "without_negative self" parts should_break]
      by (simp only: merge_body_without_negative if_True simp_thms)
    show ?thesis
    proof (cases "merge_body self parts")
      case (Inl e)
      with l r show ?thesis by simp
    next
      case (Inr pr)
      obtain parts' sb' where pr: "pr = (parts', sb')" by (cases pr)
      have b: "merge_body self parts = Inr (parts', sb')"
        using Inr pr by simp
      have ih: "merge_loop (without_negative self) parts' sb' = merge_loop self parts' sb'"
        by (rule 1 [OF True b refl])
      show ?thesis
        by (simp only: l r b sum.case prod.case ih)
    qed
  qed
qed

section \<open>Every part returned is a key\<close>

lemma fold_append_parts: "fold (\<lambda>part acc. acc @ [part]) ps acc = acc @ ps"
  by (induction ps arbitrary: acc) auto

lemma bpe_token_keys:
  "\<exists>ps. bpe_token self token = Inr ps \<and> set ps \<subseteq> dom (bpe_vocab self)"
proof (cases "bpe_vocab self (token @ eow self) \<noteq> None")
  case True
  then have "bpe_token self token = Inr [token @ eow self]"
    by (simp add: bpe_token_def)
  with True show ?thesis by auto
next
  case False
  define trimmed where "trimmed = trim_loop self (utf8_chars token)"
  show ?thesis
  proof (cases "trimmed = []")
    case True
    with False have "bpe_token self token = Inr []"
      by (simp add: bpe_token_def trimmed_def)
    then show ?thesis by simp
  next
    case ne: False
    define parts where
      "parts = filter_loop self (butlast trimmed @ [last trimmed @ eow self]) 0"
    have bt: "bpe_token self token = merge_loop self parts False"
      using False ne by (simp add: bpe_token_def trimmed_def parts_def Let_def)
    have keys: "\<forall>p \<in> set parts. bpe_vocab self p \<noteq> None"
      by (simp add: parts_def filter_loop_eq)
    obtain ps where ps: "merge_loop self parts False = Inr ps"
      using merge_loop_returns by blast
    from merge_loop_keys [OF keys ps] have "set ps \<subseteq> dom (bpe_vocab self)"
      by auto
    with bt ps show ?thesis by simp
  qed
qed

lemma tokenize_loop_keys:
  "set acc \<subseteq> dom (bpe_vocab self) \<Longrightarrow>
     \<exists>out. tokenize_loop self tokens acc = Inr out \<and> set out \<subseteq> dom (bpe_vocab self)"
proof (induction tokens arbitrary: acc)
  case Nil
  then show ?case by simp
next
  case (Cons token tokens)
  obtain ps where ps: "bpe_token self token = Inr ps" "set ps \<subseteq> dom (bpe_vocab self)"
    using bpe_token_keys by blast
  with Cons.prems have "set (acc @ ps) \<subseteq> dom (bpe_vocab self)" by simp
  from Cons.IH [OF this] ps(1) show ?case
    by (simp add: fold_append_parts)
qed

section \<open>The whole-word fast path\<close>

text \<open>
  C7. If \<open>word + EOW\<close> is a key of the table, \<open>bpe_token\<close> returns the one-element list
  \<open>[word + EOW]\<close>: nothing is segmented and nothing is merged.
\<close>

theorem bpe_token_fast_path:
  "bpe_vocab self (word @ eow self) \<noteq> None \<Longrightarrow> bpe_token self word = Inr [word @ eow self]"
  by (simp add: bpe_token_def)

theorem bpe_token_fast_path_witness:
  "bpe_vocab doc_bpe (''hello'' @ eow doc_bpe) \<noteq> None \<and>
   bpe_token doc_bpe ''hello'' = Inr [''hello'' @ eow doc_bpe]"
proof -
  have h: "bpe_vocab doc_bpe (''hello'' @ eow doc_bpe) \<noteq> None"
    by (simp add: doc_bpe_def doc_counts_def)
  show ?thesis using h bpe_token_fast_path [OF h] by simp
qed

section \<open>Character segmentation\<close>

text \<open>
  C9. The pieces returned by \<open>utf8_chars\<close>, put together in order, are the input string,
  whatever its bytes (a start byte that announces more bytes than are left gets the bytes
  that are left); the empty string gives no piece.
\<close>

theorem utf8_chars_concat: "concat (utf8_chars s) = s \<and> utf8_chars [] = []"
  by (simp add: utf8_chars_def utf8_chars_loop_concat utf8_chars_loop.simps [of "[]" 0 "[]"])

section \<open>Only table keys are returned\<close>

text \<open>
  C10. \<open>bpe_token\<close> returns a list, and every string in it is a key of the table; so does
  \<open>tokenize\<close>.
\<close>

theorem bpe_token_only_keys:
  "(\<exists>ps. bpe_token self token = Inr ps \<and> set ps \<subseteq> dom (bpe_vocab self)) \<and>
   (\<exists>out. tokenize self tokens = Inr out \<and> set out \<subseteq> dom (bpe_vocab self))"
  using bpe_token_keys [of self token] tokenize_loop_keys [of "[]" self tokens]
  by (simp add: tokenize_def)

theorem bpe_token_only_keys_witness:
  "bpe_token doc_bpe ''this'' = Inr [''th'', ''is_EOW''] \<and>
   tokenize doc_bpe [''this'', ''is''] = Inr [''th'', ''is_EOW'', ''is_EOW''] \<and>
   set [''th'', ''is_EOW''] \<subseteq> dom (bpe_vocab doc_bpe) \<and>
   set [''th'', ''is_EOW'', ''is_EOW''] \<subseteq> dom (bpe_vocab doc_bpe)"
proof -
  have a: "bpe_token doc_bpe ''this'' = Inr [''th'', ''is_EOW'']"
    by code_simp
  have b: "tokenize doc_bpe [''this'', ''is''] = Inr [''th'', ''is_EOW'', ''is_EOW'']"
    by code_simp
  from bpe_token_only_keys [of doc_bpe "''this''" "[''this'', ''is'']"] a b
  show ?thesis by simp
qed

section \<open>Termination\<close>

text \<open>
  C8. \<open>bpe_token\<close> returns a value on every input. One round of the trim loop shortens
  \<open>parts\<close>; one round of the filter loop lowers \<open>len(parts) - i\<close>; a merge shortens
  \<open>parts\<close> by exactly one; and the body of the merge loop runs at most
  \<open>len(parts) - 1\<close> times.
\<close>

theorem bpe_token_terminates:
  "(\<exists>ps. bpe_token self token = Inr ps) \<and>
   (0 < length parts1 \<and> bpe_vocab self (last parts1 @ eow self) = None \<longrightarrow>
      trim_loop self parts1 = trim_loop self (butlast parts1) \<and>
      length (butlast parts1) < length parts1) \<and>
   (i < length parts2 \<longrightarrow>
      (if bpe_vocab self (parts2 ! i) = None
       then filter_loop self parts2 i = filter_loop self (list_pop parts2 i) i \<and>
            length (list_pop parts2 i) - i < length parts2 - i
       else filter_loop self parts2 i = filter_loop self parts2 (i + 1) \<and>
            length parts2 - (i + 1) < length parts2 - i)) \<and>
   (merge_body self parts3 = Inr (parts', False) \<longrightarrow> length parts' + 1 = length parts3) \<and>
   merge_loop_iterations self parts3 False \<le> length parts3 - 1"
proof (intro conjI impI)
  show "\<exists>ps. bpe_token self token = Inr ps"
    using bpe_token_keys [of self token] by blast
next
  assume a: "0 < length parts1 \<and> bpe_vocab self (last parts1 @ eow self) = None"
  then show "trim_loop self parts1 = trim_loop self (butlast parts1)"
    by (subst trim_loop.simps) simp
  from a show "length (butlast parts1) < length parts1" by simp
next
  assume a: "i < length parts2"
  show "if bpe_vocab self (parts2 ! i) = None
       then filter_loop self parts2 i = filter_loop self (list_pop parts2 i) i \<and>
            length (list_pop parts2 i) - i < length parts2 - i
       else filter_loop self parts2 i = filter_loop self parts2 (i + 1) \<and>
            length parts2 - (i + 1) < length parts2 - i"
  proof (cases "bpe_vocab self (parts2 ! i) = None")
    case True
    have "filter_loop self parts2 i = filter_loop self (list_pop parts2 i) i"
      by (simp add: filter_loop.simps [of self parts2 i] a True)
    with a True show ?thesis by (simp add: list_pop_def)
  next
    case False
    have "filter_loop self parts2 i = filter_loop self parts2 (i + 1)"
      by (simp add: filter_loop.simps [of self parts2 i] a False)
    with a False show ?thesis by auto
  qed
next
  assume "merge_body self parts3 = Inr (parts', False)"
  then show "length parts' + 1 = length parts3"
    by (auto simp: merge_body_def split: prod.splits if_splits sum.splits
        dest: merge_pair_length)
next
  show "merge_loop_iterations self parts3 False \<le> length parts3 - 1"
    using merge_loop_iterations_bound [of self parts3 False] by simp
qed

theorem bpe_token_terminates_witness:
  "(\<exists>ps. bpe_token doc_bpe ''this'' = Inr ps) \<and>
   (0 < length [''a''] \<and> bpe_vocab doc_bpe (last [''a''] @ eow doc_bpe) = None) \<and>
   length (butlast [''a'']) < length [''a''] \<and>
   0 < length [''x'', ''h''] \<and> bpe_vocab doc_bpe ([''x'', ''h''] ! 0) = None \<and>
   length (list_pop [''x'', ''h''] 0) - 0 < length [''x'', ''h''] - 0 \<and>
   merge_body doc_bpe [''t'', ''h'', ''i'', ''s_EOW''] = Inr ([''th'', ''i'', ''s_EOW''], False) \<and>
   length [''th'', ''i'', ''s_EOW''] + 1 = length [''t'', ''h'', ''i'', ''s_EOW''] \<and>
   merge_loop_iterations doc_bpe [''t'', ''h'', ''i'', ''s_EOW''] False \<le> 3"
proof -
  have h1: "0 < length [''a''] \<and> bpe_vocab doc_bpe (last [''a''] @ eow doc_bpe) = None"
    by (simp add: doc_bpe_def doc_counts_def)
  have h2: "0 < length [''x'', ''h'']" by simp
  have h3: "bpe_vocab doc_bpe ([''x'', ''h''] ! 0) = None"
    by (simp add: doc_bpe_def doc_counts_def)
  have h4: "merge_body doc_bpe [''t'', ''h'', ''i'', ''s_EOW''] =
      Inr ([''th'', ''i'', ''s_EOW''], False)"
    by code_simp
  from bpe_token_terminates [where self = doc_bpe and token = "''this''"
      and ?parts1.0 = "[''a'']" and i = 0 and ?parts2.0 = "[''x'', ''h'']"
      and ?parts3.0 = "[''t'', ''h'', ''i'', ''s_EOW'']" and parts' = "[''th'', ''i'', ''s_EOW'']"]
    h1 h2 h3 h4
  show ?thesis by (simp add: list_pop_def)
qed

section \<open>The pair selected by the merge loop\<close>

text \<open>
  C1, as stated, fails: with the pairs \<open>ab\<close> and \<open>bc$\<close> at priorities \<open>-2\<close> and \<open>-3\<close> the
  greatest priority over all adjacent pairs is \<open>-2\<close>, not the sentinel, so the statement asks
  for a merge at index 0; the loop body stops, because its running maximum starts at the
  sentinel.
\<close>

theorem merge_body_greatest_counterexample:
  "merge_body small_bpe [''a'', ''b'', ''c$''] = Inr ([''a'', ''b'', ''c$''], True) \<and>
   claimed_merge_body small_bpe [''a'', ''b'', ''c$''] = Inr ([''ab'', ''c$''], False) \<and>
   bpe_token small_bpe ''abc'' = Inr [''a'', ''b'', ''c$'']"
  by code_simp

text \<open>
  C1, amended. If no adjacent pair has a priority above the sentinel \<open>-1\<close>, the body stops
  and the loop returns \<open>parts\<close> unchanged. If the pair at \<open>k\<close> has a priority above
  \<open>-1\<close> that no pair exceeds and no earlier pair reaches, the body replaces that pair by
  its concatenation, \<open>parts\<close> gets one shorter, and the loop goes on from there.
  One of the two cases always holds.
\<close>

theorem merge_body_selects:
  "((\<forall>j < length parts - 1. pair_value_at self parts j \<le> NOT_IN_VOCAB) \<longrightarrow>
      merge_body self parts = Inr (parts, True) \<and>
      merge_loop self parts False = Inr parts) \<and>
   (k < length parts - 1 \<and> NOT_IN_VOCAB < pair_value_at self parts k \<and>
    (\<forall>j < length parts - 1. pair_value_at self parts j \<le> pair_value_at self parts k) \<and>
    (\<forall>j < k. pair_value_at self parts j < pair_value_at self parts k) \<longrightarrow>
      merge_body self parts =
        Inr (take k parts @ [parts ! k @ parts ! (k + 1)] @ drop (k + 2) parts, False) \<and>
      length (take k parts @ [parts ! k @ parts ! (k + 1)] @ drop (k + 2) parts) + 1 =
        length parts \<and>
      merge_loop self parts False =
        merge_loop self (take k parts @ [parts ! k @ parts ! (k + 1)] @ drop (k + 2) parts) False) \<and>
   ((\<forall>j < length parts - 1. pair_value_at self parts j \<le> NOT_IN_VOCAB) \<or>
    (\<exists>k < length parts - 1. NOT_IN_VOCAB < pair_value_at self parts k \<and>
       (\<forall>j < length parts - 1. pair_value_at self parts j \<le> pair_value_at self parts k) \<and>
       (\<forall>j < k. pair_value_at self parts j < pair_value_at self parts k)))"
proof (intro conjI impI)
  assume a: "\<forall>j < length parts - 1. pair_value_at self parts j \<le> NOT_IN_VOCAB"
  show b: "merge_body self parts = Inr (parts, True)"
    by (simp add: merge_body_def scan_pairs_none [OF a])
  show "merge_loop self parts False = Inr parts"
  proof (cases "1 < length parts")
    case True
    then have "merge_loop self parts False = merge_loop self parts True"
      by (subst merge_loop.simps) (simp add: b)
    also have "\<dots> = Inr parts"
      by (subst merge_loop.simps) simp
    finally show ?thesis .
  next
    case False
    then show ?thesis by (subst merge_loop.simps) simp
  qed
next
  assume a: "k < length parts - 1 \<and> NOT_IN_VOCAB < pair_value_at self parts k \<and>
    (\<forall>j < length parts - 1. pair_value_at self parts j \<le> pair_value_at self parts k) \<and>
    (\<forall>j < k. pair_value_at self parts j < pair_value_at self parts k)"
  let ?parts' = "take k parts @ [parts ! k @ parts ! (k + 1)] @ drop (k + 2) parts"
  from a have k: "k + 1 < length parts" by (auto simp: less_diff_conv)
  from a have s: "scan_pairs self parts = (k, pair_value_at self parts k)"
    by (intro scan_pairs_some) simp_all
  from a have ne: "pair_value_at self parts k \<noteq> NOT_IN_VOCAB" by simp
  show b: "merge_body self parts = Inr (?parts', False)"
    by (simp add: merge_body_def s ne merge_pair_in_range [OF k])
  from k show "length ?parts' + 1 = length parts" by simp
  from k show "merge_loop self parts False = merge_loop self ?parts' False"
    by (subst merge_loop.simps) (simp add: b)
next
  show "(\<forall>j < length parts - 1. pair_value_at self parts j \<le> NOT_IN_VOCAB) \<or>
    (\<exists>k < length parts - 1. NOT_IN_VOCAB < pair_value_at self parts k \<and>
       (\<forall>j < length parts - 1. pair_value_at self parts j \<le> pair_value_at self parts k) \<and>
       (\<forall>j < k. pair_value_at self parts j < pair_value_at self parts k))"
    by (rule pair_values_cases)
qed

theorem merge_body_selects_witness:
  "pair_value_at doc_bpe [''th'', ''is_EOW''] 0 \<le> NOT_IN_VOCAB \<and>
   merge_body doc_bpe [''th'', ''is_EOW''] = Inr ([''th'', ''is_EOW''], True) \<and>
   merge_loop doc_bpe [''th'', ''is_EOW''] False = Inr [''th'', ''is_EOW''] \<and>
   NOT_IN_VOCAB < pair_value_at doc_bpe [''th'', ''i'', ''s_EOW''] 1 \<and>
   pair_value_at doc_bpe [''th'', ''i'', ''s_EOW''] 0
     < pair_value_at doc_bpe [''th'', ''i'', ''s_EOW''] 1 \<and>
   merge_body doc_bpe [''th'', ''i'', ''s_EOW''] = Inr ([''th'', ''is_EOW''], False)"
proof -
  have p0: "pair_value_at doc_bpe [''th'', ''is_EOW''] 0 = - 1"
    by code_simp
  have q0: "pair_value_at doc_bpe [''th'', ''i'', ''s_EOW''] 0 = - 1"
    by code_simp
  have q1: "pair_value_at doc_bpe [''th'', ''i'', ''s_EOW''] 1 = 16"
    by code_simp
  have q1': "pair_value_at doc_bpe [''th'', ''i'', ''s_EOW''] (Suc 0) = 16"
    using q1 by simp
  have h1: "\<forall>j < length [''th'', ''is_EOW''] - 1.
      pair_value_at doc_bpe [''th'', ''is_EOW''] j \<le> NOT_IN_VOCAB"
    by (simp add: p0 NOT_IN_VOCAB_def)
  have h2: "1 < length [''th'', ''i'', ''s_EOW''] - 1 \<and>
    NOT_IN_VOCAB < pair_value_at doc_bpe [''th'', ''i'', ''s_EOW''] 1 \<and>
    (\<forall>j < length [''th'', ''i'', ''s_EOW''] - 1.
       pair_value_at doc_bpe [''th'', ''i'', ''s_EOW''] j
         \<le> pair_value_at doc_bpe [''th'', ''i'', ''s_EOW''] 1) \<and>
    (\<forall>j < 1. pair_value_at doc_bpe [''th'', ''i'', ''s_EOW''] j
         < pair_value_at doc_bpe [''th'', ''i'', ''s_EOW''] 1)"
    by (auto simp: q0 q1' NOT_IN_VOCAB_def less_Suc_eq numeral_2_eq_2)
  from merge_body_selects [of "[''th'', ''is_EOW'']" doc_bpe 0] h1
    merge_body_selects [of "[''th'', ''i'', ''s_EOW'']" doc_bpe 1] h2
  show ?thesis by (simp add: p0 q0 q1 NOT_IN_VOCAB_def)
qed

section \<open>Negative priorities\<close>

text \<open>
  C3. A pair that the merge loop joins has a table value that is not negative; and the merge
  loop gives the same result on the table with its negative entries removed.
\<close>

theorem merge_ignores_negative:
  "(merge_body self parts = Inr (parts', False) \<longrightarrow>
      (\<exists>k v. k + 1 < length parts \<and>
             bpe_vocab self (parts ! k @ parts ! (k + 1)) = Some v \<and> 0 \<le> v \<and>
             parts' = take k parts @ [parts ! k @ parts ! (k + 1)] @ drop (k + 2) parts)) \<and>
   merge_loop (without_negative self) parts should_break = merge_loop self parts should_break"
proof (intro conjI impI)
  assume a: "merge_body self parts = Inr (parts', False)"
  obtain k v where kv: "scan_pairs self parts = (k, v)"
    by (cases "scan_pairs self parts")
  with a have ne: "v \<noteq> NOT_IN_VOCAB"
    by (auto simp: merge_body_def split: if_splits)
  from scan_pairs_selected [OF kv ne]
  have k: "k + 1 < length parts" and pv: "pair_value_at self parts k = v" and v: "0 \<le> v"
    by auto
  from pv ne have key: "bpe_vocab self (parts ! k @ parts ! (k + 1)) = Some v"
    by (auto simp: pair_value_at_def split: option.splits)
  from a kv ne merge_pair_in_range [OF k]
  have "parts' = take k parts @ [parts ! k @ parts ! (k + 1)] @ drop (k + 2) parts"
    by (simp add: merge_body_def)
  with k key v
  show "\<exists>k v. k + 1 < length parts \<and>
             bpe_vocab self (parts ! k @ parts ! (k + 1)) = Some v \<and> 0 \<le> v \<and>
             parts' = take k parts @ [parts ! k @ parts ! (k + 1)] @ drop (k + 2) parts"
    by blast
next
  show "merge_loop (without_negative self) parts should_break =
      merge_loop self parts should_break"
    by (rule merge_loop_without_negative)
qed

theorem merge_ignores_negative_witness:
  "merge_body doc_bpe [''i'', ''s_EOW''] = Inr ([''is_EOW''], False) \<and>
   (\<exists>k v. k + 1 < length [''i'', ''s_EOW''] \<and>
      bpe_vocab doc_bpe ([''i'', ''s_EOW''] ! k @ [''i'', ''s_EOW''] ! (k + 1)) = Some v \<and>
      0 \<le> v \<and>
      [''is_EOW''] =
        take k [''i'', ''s_EOW''] @ [[''i'', ''s_EOW''] ! k @ [''i'', ''s_EOW''] ! (k + 1)] @
        drop (k + 2) [''i'', ''s_EOW'']) \<and>
   merge_loop (without_negative doc_bpe) [''i'', ''i'', ''s_EOW''] False =
     merge_loop doc_bpe [''i'', ''i'', ''s_EOW''] False"
proof -
  have h: "merge_body doc_bpe [''i'', ''s_EOW''] = Inr ([''is_EOW''], False)"
    by code_simp
  from merge_ignores_negative [of doc_bpe "[''i'', ''s_EOW'']" "[''is_EOW'']" False] h
    merge_ignores_negative [of doc_bpe "[''i'', ''i'', ''s_EOW'']" "[]" False]
  show ?thesis by blast
qed

section \<open>The documented examples\<close>

text \<open>
  C2, as stated, fails: with the listed numbers as priorities, \<open>tokenize(["iiiis"])\<close> is not
  \<open>["ii", "i", "is_EOW"]\<close>.
\<close>

theorem tokenize_iiiis_counterexample:
  "tokenize doc_bpe [''iiiis''] \<noteq> Inr [''ii'', ''i'', ''is_EOW'']"
  by code_simp

text \<open>
  C2, amended. With the listed numbers as priorities, \<open>tokenize(["iiiis"])\<close> returns
  \<open>["i", "i", "i", "is_EOW"]\<close>: \<open>ii\<close> has priority \<open>-2\<close> and is never joined.
\<close>

theorem tokenize_iiiis:
  "tokenize doc_bpe [''iiiis''] = Inr [''i'', ''i'', ''i'', ''is_EOW'']"
  by code_simp

text \<open>
  The output of the docstring, \<open>["ii", "i", "is_EOW"]\<close>, is what the table built by
  \<open>load_vocab\<close> from the same lines gives: there \<open>ii\<close> has priority 1.
\<close>

lemma tokenize_iiiis_loaded:
  "tokenize doc_bpe_loaded [''iiiis''] = Inr [''ii'', ''i'', ''is_EOW'']"
  by code_simp

text \<open>
  C4. With the listed numbers as priorities,
  \<open>tokenize(["hello", "world", "this", "is", "bpe"])\<close> returns
  \<open>["hello_EOW", "world_EOW", "th", "is_EOW", "is_EOW", "bpe_EOW"]\<close>.
\<close>

theorem tokenize_hello_world:
  "tokenize doc_bpe [''hello'', ''world'', ''this'', ''is'', ''bpe''] =
     Inr [''hello_EOW'', ''world_EOW'', ''th'', ''is_EOW'', ''is_EOW'', ''bpe_EOW'']"
  by code_simp

section \<open>\<open>lookup_words_1d\<close>\<close>

text \<open>
  C5, as stated, fails at a negative id: \<open>-1\<close> passes the only test, \<open>value < len(self.vocab)\<close>,
  and the subscript reads the last token, where the statement gives the unk token.
\<close>

theorem lookup_words_negative_counterexample:
  "lookup_words_1d abc_vocabulary [- 1] [] None = Inr [''c''] \<and>
   claimed_words abc_vocabulary [- 1] [] None = Inr [''a'']"
  by code_simp

lemma lookup_words_loop_claimed:
  "\<forall>v \<in> set vals. v \<notin> set filter_ids \<longrightarrow> 0 \<le> v \<Longrightarrow>
     lookup_words_loop self vals filter_ids unk result =
       (case claimed_words self vals filter_ids unk of
          Inl e \<Rightarrow> Inl e
        | Inr ws \<Rightarrow> Inr (result @ ws))"
proof (induction vals arbitrary: result)
  case Nil
  then show ?case by simp
next
  case (Cons v vals)
  then have ih: "\<And>result. lookup_words_loop self vals filter_ids unk result =
       (case claimed_words self vals filter_ids unk of
          Inl e \<Rightarrow> Inl e
        | Inr ws \<Rightarrow> Inr (result @ ws))"
    by simp
  from Cons.prems have v: "v \<notin> set filter_ids \<Longrightarrow> 0 \<le> v" by simp
  show ?case
  proof (cases "v \<in> set filter_ids")
    case True
    then show ?thesis
      by (cases "claimed_words self vals filter_ids unk")
         (simp_all add: list_membership_set claimed_word_def ih)
  next
    case False
    with v have nn: "0 \<le> v" by simp
    show ?thesis
    proof (cases "v < int (length (vocab self))")
      case True
      with nn have "list_getitem (vocab self) v = Inr (vocab self ! nat v)"
        by (simp add: list_getitem_def)
      with False True nn show ?thesis
        by (cases "claimed_words self vals filter_ids unk")
           (simp_all add: list_membership_set claimed_word_def ih)
    next
      case big: False
      show ?thesis
      proof (cases unk)
        case (Some u)
        with False big ih show ?thesis
          by (cases "claimed_words self vals filter_ids unk")
             (simp_all add: list_membership_set claimed_word_def)
      next
        case None
        show ?thesis
        proof (cases "list_getitem (vocab self) (unk_idx self)")
          case (Inl e)
          with False big None show ?thesis
            by (simp add: list_membership_set claimed_word_def)
        next
          case (Inr w)
          with False big None ih show ?thesis
            by (cases "claimed_words self vals filter_ids unk")
               (simp_all add: list_membership_set claimed_word_def)
        qed
      qed
    qed
  qed
qed

text \<open>
  C5, amended. When every id that is not filtered is at least 0, \<open>lookup_words_1d\<close> emits,
  id by id and in order: nothing for a filtered id, \<open>tokens[id]\<close> for \<open>id < len(tokens)\<close>, and
  otherwise the replacement if there is one, else \<open>tokens[unk_idx]\<close> (an error if that
  subscript is out of range).
\<close>

theorem lookup_words_1d_claimed:
  "\<forall>v \<in> set vals. v \<notin> set filter_ids \<longrightarrow> 0 \<le> v \<Longrightarrow>
     lookup_words_1d self vals filter_ids unk = claimed_words self vals filter_ids unk"
  by (simp add: lookup_words_1d_def lookup_words_loop_claimed split: sum.splits)

theorem lookup_words_1d_claimed_witness:
  "lookup_words_1d abc_vocabulary [0, 5, 1, - 1] [1, - 1] None =
     claimed_words abc_vocabulary [0, 5, 1, - 1] [1, - 1] None \<and>
   claimed_words abc_vocabulary [0, 5, 1, - 1] [1, - 1] None = Inr [''a'', ''a'']"
proof -
  have h: "\<forall>v \<in> set [0, 5, 1, - 1]. v \<notin> set [1, - 1] \<longrightarrow> (0::int) \<le> v"
    by simp
  have c: "claimed_words abc_vocabulary [0, 5, 1, - 1] [1, - 1] None = Inr [''a'', ''a'']"
    by code_simp
  from lookup_words_1d_claimed [OF h, of abc_vocabulary None] c
  show ?thesis by simp
qed

text \<open>
  C6. For a vocabulary built from a list without duplicates and words that all occur in
  it, \<open>lookup_words_1d(lookup_indices_1d(words))\<close> with an empty filter and no replacement
  returns \<open>words\<close>.
\<close>

theorem lookup_round_trip:
  assumes "distinct vocab_list" and "set words \<subseteq> set vocab_list"
  shows "lookup_words_1d (Vocabulary_init vocab_list unk pad bos eos)
           (lookup_indices_1d (Vocabulary_init vocab_list unk pad bos eos) words) [] None =
         Inr words"
proof -
  let ?V = "Vocabulary_init vocab_list unk pad bos eos"
  have v: "vocab ?V = vocab_list" and i: "idx ?V = enumerate_dict (vocab ?V)"
    by (simp_all add: Vocabulary_init_def)
  from assms v have d: "distinct (vocab ?V)" and s: "set words \<subseteq> set (vocab ?V)"
    by simp_all
  from lookup_words_loop_round_trip [OF d i s, of "[]"] show ?thesis
    by (simp add: lookup_words_1d_def lookup_indices_1d_map)
qed

theorem lookup_round_trip_witness:
  "distinct [''a'', ''b'', ''c''] \<and> set [''b'', ''a'', ''b''] \<subseteq> set [''a'', ''b'', ''c''] \<and>
   lookup_words_1d (Vocabulary_init [''a'', ''b'', ''c''] 0 (- 1) (- 1) (- 1))
     (lookup_indices_1d (Vocabulary_init [''a'', ''b'', ''c''] 0 (- 1) (- 1) (- 1))
        [''b'', ''a'', ''b'']) [] None =
   Inr [''b'', ''a'', ''b'']"
proof -
  have h1: "distinct [''a'', ''b'', ''c'']" by simp
  have h2: "set [''b'', ''a'', ''b''] \<subseteq> set [''a'', ''b'', ''c'']" by simp
  from lookup_round_trip [OF h1 h2, of 0 "- 1" "- 1" "- 1"] h1 h2
  show ?thesis by simp
qed

end
